theory Spec2Isabelle
  imports Complex_Main "HOL-Library.Word"
begin

section \<open>Data model of the stochastic simulation engine\<close>

text \<open>
  The engine of \<^verbatim>\<open>gillespie.py\<close> works on a population vector (a numpy array of 64-bit
  signed integers, as \<^verbatim>\<open>main.py\<close> builds it from integer inputs), a propensity evaluator
  (state to a vector of rates), a stoichiometry table (one row per reaction channel) and a
  time horizon. Times and rates are floating-point numbers in the source; they are
  idealised here as real numbers.

  The source draws from numpy's process-wide random generator. The generator is made
  explicit as a tape of draws, one pair per loop iteration: the first component stands
  for the standard exponential variate behind \<^verbatim>\<open>np.random.exponential\<close>, the second for
  the uniform variate behind \<^verbatim>\<open>np.random.choice\<close>. A tape is a finite prefix of the
  random stream; a run that needs a draw beyond the prefix has no result (\<open>None\<close>).
\<close>

type_synonym state_vec = "64 word list"

type_synonym draw = "real \<times> real"

type_synonym trajectory = "real list \<times> state_vec list"

datatype error = ValueError | IndexError | ZeroDivisionError

text \<open>
  The loop of the source has three exits: the loop condition fails, the propensity sum is
  zero (first \<^verbatim>\<open>break\<close>), the horizon is overshot (second \<^verbatim>\<open>break\<close>). The model records
  which one was taken next to the trajectory it returns.
\<close>

datatype exit = Condition_False | Absorbed | Truncated

definition well_formed_draw :: "draw \<Rightarrow> bool" where
  "well_formed_draw d = (0 \<le> fst d \<and> 0 \<le> snd d \<and> snd d < 1)"

section \<open>The numpy operations the engine calls\<close>

text \<open>Division, with the division by zero as an error value of its own.\<close>

definition true_divide :: "real \<Rightarrow> real \<Rightarrow> error + real" where
  "true_divide x y = (if y = 0 then Inl ZeroDivisionError else Inr (x / y))"

text \<open>\<^verbatim>\<open>propensities / propensity_sum\<close>: element-wise division by a scalar.\<close>

definition divide_all :: "real list \<Rightarrow> real \<Rightarrow> error + real list" where
  "divide_all xs y = (if y = 0 then Inl ZeroDivisionError else Inr (map (\<lambda>x. x / y) xs))"

text \<open>
  \<^verbatim>\<open>np.random.exponential(scale)\<close> rejects a negative scale and otherwise scales a standard
  exponential variate.
\<close>

definition exponential :: "real \<Rightarrow> real \<Rightarrow> error + real" where
  "exponential scale e = (if scale < 0 then Inl ValueError else Inr (scale * e))"

fun cumsum :: "real \<Rightarrow> real list \<Rightarrow> real list" where
  "cumsum acc [] = []"
| "cumsum acc (x # xs) = (acc + x) # cumsum (acc + x) xs"

definition searchsorted_right :: "real list \<Rightarrow> real \<Rightarrow> nat" where
  "searchsorted_right cdf u = length (takeWhile (\<lambda>c. c \<le> u) cdf)"

definition atol :: real where
  "atol = 1 / 2 ^ 26"

text \<open>
  \<^verbatim>\<open>np.random.choice(n, p=p)\<close>: the population must be non-empty, \<open>p\<close> must have \<open>n\<close>
  entries, none negative, summing to one within the tolerance; the index is found by
  searching the uniform variate in the normalised cumulative sums.
\<close>

definition choice :: "nat \<Rightarrow> real list \<Rightarrow> real \<Rightarrow> error + nat" where
  "choice n p u =
     (if n = 0 then Inl ValueError
      else if length p \<noteq> n then Inl ValueError
      else if list_ex (\<lambda>x. x < 0) p then Inl ValueError
      else if \<bar>sum_list p - 1\<bar> > atol then Inl ValueError
      else Inr (searchsorted_right (map (\<lambda>c. c / last (cumsum 0 p)) (cumsum 0 p)) u))"

text \<open>\<^verbatim>\<open>reactions[reaction_index]\<close> with a non-negative index: out of range raises.\<close>

definition getitem :: "'a list \<Rightarrow> nat \<Rightarrow> error + 'a" where
  "getitem xs i = (if i < length xs then Inr (xs ! i) else Inl IndexError)"

text \<open>
  \<^verbatim>\<open>current_state += row\<close>: in-place addition with numpy's broadcasting. A row as long
  as the state is added component-wise, a row of length one is added to every component,
  any other shape raises. The addition of 64-bit integers wraps around.
\<close>

definition iadd :: "state_vec \<Rightarrow> state_vec \<Rightarrow> error + state_vec" where
  "iadd current_state row =
     (if length row = length current_state then Inr (map2 (+) current_state row)
      else if length row = 1 then Inr (map (\<lambda>x. x + hd row) current_state)
      else Inl ValueError)"

text \<open>\<^verbatim>\<open>np.maximum(current_state, 0)\<close>: component-wise signed maximum with a scalar.\<close>

definition maximum :: "state_vec \<Rightarrow> 64 word \<Rightarrow> state_vec" where
  "maximum xs b = map (\<lambda>x. if b \<le>s x then x else b) xs"

section \<open>The simulation loop\<close>

fun gillespie_loop ::
  "(state_vec \<Rightarrow> real list) \<Rightarrow> state_vec list \<Rightarrow> real \<Rightarrow> real list \<Rightarrow> state_vec list \<Rightarrow>
     real \<Rightarrow> state_vec \<Rightarrow> draw list \<Rightarrow> (error + exit \<times> trajectory) option" where
  "gillespie_loop propensity_func reactions max_time times_list populations current_time
       current_state draws =
     (if current_time < max_time then
        (let propensities = propensity_func current_state;
             propensity_sum = sum_list propensities
         in if propensity_sum = 0 then Some (Inr (Absorbed, times_list, populations))
            else
              (case draws of
                 [] \<Rightarrow> None
               | (e, u) # rest \<Rightarrow>
                  (case true_divide 1 propensity_sum of
                     Inl err \<Rightarrow> Some (Inl err)
                   | Inr scale \<Rightarrow>
                  (case exponential scale e of
                     Inl err \<Rightarrow> Some (Inl err)
                   | Inr time_step \<Rightarrow>
                  if current_time + time_step > max_time
                  then Some (Inr (Truncated, times_list @ [max_time], populations @ [current_state]))
                  else
                  (case divide_all propensities propensity_sum of
                     Inl err \<Rightarrow> Some (Inl err)
                   | Inr reaction_probs \<Rightarrow>
                  (case choice (length propensities) reaction_probs u of
                     Inl err \<Rightarrow> Some (Inl err)
                   | Inr reaction_index \<Rightarrow>
                  (case getitem reactions reaction_index of
                     Inl err \<Rightarrow> Some (Inl err)
                   | Inr row \<Rightarrow>
                  (case iadd current_state row of
                     Inl err \<Rightarrow> Some (Inl err)
                   | Inr added \<Rightarrow>
                  (let new_state = maximum added 0;
                       new_time = current_time + time_step
                   in gillespie_loop propensity_func reactions max_time
                        (times_list @ [new_time]) (populations @ [new_state])
                        new_time new_state rest)))))))))
      else Some (Inr (Condition_False, times_list, populations)))"

declare gillespie_loop.simps [simp del]

definition gillespie_run ::
  "state_vec \<Rightarrow> (state_vec \<Rightarrow> real list) \<Rightarrow> state_vec list \<Rightarrow> real \<Rightarrow> draw list \<Rightarrow>
     (error + exit \<times> trajectory) option" where
  "gillespie_run initial_state propensity_func reactions max_time draws =
     gillespie_loop propensity_func reactions max_time [0] [initial_state] 0 initial_state draws"

text \<open>What the source returns: the times and the populations.\<close>

definition gillespie_simulation ::
  "state_vec \<Rightarrow> (state_vec \<Rightarrow> real list) \<Rightarrow> state_vec list \<Rightarrow> real \<Rightarrow> draw list \<Rightarrow>
     (error + trajectory) option" where
  "gillespie_simulation initial_state propensity_func reactions max_time draws =
     map_option (map_sum id snd)
       (gillespie_run initial_state propensity_func reactions max_time draws)"

section \<open>The engine on the state of the process\<close>

text \<open>
  The value model above passes arrays by value and takes the draws as an argument. The
  source runs in a process: numpy arrays are objects that are shared by reference and
  updated in place, and \<^verbatim>\<open>np.random\<close> is one generator for the whole process. This
  section models the same function on that process state. An array is a cell of the heap,
  named by its index; the generator is the list of the variates it will give next, one
  consumed by each successful call of \<^verbatim>\<open>np.random.exponential\<close> or \<^verbatim>\<open>np.random.choice\<close>;
  \<^verbatim>\<open>np.random.seed\<close> replaces that list by the stream the seed stands for.
\<close>

type_synonym ref = nat

record process =
  heap :: "state_vec list"
  generator :: "real list"

definition seed :: "real list \<Rightarrow> process \<Rightarrow> process" where
  "seed stream \<sigma> = \<sigma>\<lparr>generator := stream\<rparr>"

text \<open>\<^verbatim>\<open>a.copy()\<close> allocates a new array with the contents of \<open>a\<close>.\<close>

definition copy_array :: "state_vec list \<Rightarrow> ref \<Rightarrow> state_vec list \<times> ref" where
  "copy_array h r = (h @ [h ! r], length h)"

text \<open>An operation that returns a new array, such as \<^verbatim>\<open>np.maximum\<close>, allocates its result.\<close>

definition new_array :: "state_vec list \<Rightarrow> state_vec \<Rightarrow> state_vec list \<times> ref" where
  "new_array h v = (h @ [v], length h)"

text \<open>
  The two samplers on the generator's state. Each checks its arguments first, as numpy
  does, and then consumes one variate; a generator list that is exhausted stands for a
  stream known no further (no result).
\<close>

definition exponential_draw :: "real \<Rightarrow> real list \<Rightarrow> ((error + real) \<times> real list) option" where
  "exponential_draw scale stream =
     (if scale < 0 then Some (Inl ValueError, stream)
      else (case stream of [] \<Rightarrow> None | e # rest \<Rightarrow> Some (Inr (scale * e), rest)))"

definition choice_draw ::
  "nat \<Rightarrow> real list \<Rightarrow> real list \<Rightarrow> ((error + nat) \<times> real list) option" where
  "choice_draw n p stream =
     (if n = 0 then Some (Inl ValueError, stream)
      else if length p \<noteq> n then Some (Inl ValueError, stream)
      else if list_ex (\<lambda>x. x < 0) p then Some (Inl ValueError, stream)
      else if \<bar>sum_list p - 1\<bar> > atol then Some (Inl ValueError, stream)
      else (case stream of
              [] \<Rightarrow> None
            | u # rest \<Rightarrow>
                Some (Inr (searchsorted_right (map (\<lambda>c. c / last (cumsum 0 p)) (cumsum 0 p)) u),
                      rest)))"

text \<open>
  One pass through the body of the \<^verbatim>\<open>while\<close> loop (lines 37 to 72) ends in an exception,
  in a \<^verbatim>\<open>break\<close>, or at the end of the body with new values of the loop's variables.
\<close>

datatype 'a iteration =
    Raised error
  | Stopped exit "real list" "'a list"
  | Continued "real list" "'a list" real 'a

text \<open>
  The body reads the current state through its reference, since the evaluator is called on
  the array itself. \<^verbatim>\<open>current_state += row\<close> writes into the cell of \<open>current_state\<close>;
  \<^verbatim>\<open>np.maximum\<close> then binds \<open>current_state\<close> to a new array, and the snapshot appended to
  \<open>populations\<close> is a copy of it.
\<close>

definition loop_body ::
  "(state_vec list \<Rightarrow> ref \<Rightarrow> real list) \<Rightarrow> state_vec list \<Rightarrow> real \<Rightarrow> real list \<Rightarrow> ref list \<Rightarrow>
     real \<Rightarrow> ref \<Rightarrow> state_vec list \<Rightarrow> real list \<Rightarrow>
     (ref iteration \<times> state_vec list \<times> real list) option" where
  "loop_body propensity_func reactions max_time times_list populations current_time
       current_state h stream =
     (let propensities = propensity_func h current_state;
          propensity_sum = sum_list propensities
      in if propensity_sum = 0 then Some (Stopped Absorbed times_list populations, h, stream)
         else
           (case true_divide 1 propensity_sum of
              Inl err \<Rightarrow> Some (Raised err, h, stream)
            | Inr scale \<Rightarrow>
           (case exponential_draw scale stream of
              None \<Rightarrow> None
            | Some (Inl err, stream1) \<Rightarrow> Some (Raised err, h, stream1)
            | Some (Inr time_step, stream1) \<Rightarrow>
           if current_time + time_step > max_time
           then (let (h1, snapshot) = copy_array h current_state
                 in Some (Stopped Truncated (times_list @ [max_time]) (populations @ [snapshot]),
                          h1, stream1))
           else
           (case divide_all propensities propensity_sum of
              Inl err \<Rightarrow> Some (Raised err, h, stream1)
            | Inr reaction_probs \<Rightarrow>
           (case choice_draw (length propensities) reaction_probs stream1 of
              None \<Rightarrow> None
            | Some (Inl err, stream2) \<Rightarrow> Some (Raised err, h, stream2)
            | Some (Inr reaction_index, stream2) \<Rightarrow>
           (case getitem reactions reaction_index of
              Inl err \<Rightarrow> Some (Raised err, h, stream2)
            | Inr row \<Rightarrow>
           (case iadd (h ! current_state) row of
              Inl err \<Rightarrow> Some (Raised err, h, stream2)
            | Inr added \<Rightarrow>
           (let h1 = h[current_state := added];
                (h2, new_state) = new_array h1 (maximum (h1 ! current_state) 0);
                new_time = current_time + time_step;
                (h3, snapshot) = copy_array h2 new_state
            in Some (Continued (times_list @ [new_time]) (populations @ [snapshot]) new_time
                       new_state, h3, stream2)))))))))"

function gillespie_loop_store ::
  "(state_vec list \<Rightarrow> ref \<Rightarrow> real list) \<Rightarrow> state_vec list \<Rightarrow> real \<Rightarrow> real list \<Rightarrow> ref list \<Rightarrow>
     real \<Rightarrow> ref \<Rightarrow> state_vec list \<Rightarrow> real list \<Rightarrow>
     ((error + exit \<times> real list \<times> ref list) \<times> state_vec list \<times> real list) option" where
  "gillespie_loop_store propensity_func reactions max_time times_list populations current_time
       current_state h stream =
     (if current_time < max_time then
        (case loop_body propensity_func reactions max_time times_list populations current_time
                current_state h stream of
           None \<Rightarrow> None
         | Some (Raised err, h', stream') \<Rightarrow> Some (Inl err, h', stream')
         | Some (Stopped ex times_list' populations', h', stream') \<Rightarrow>
             Some (Inr (ex, times_list', populations'), h', stream')
         | Some (Continued times_list' populations' current_time' current_state', h', stream') \<Rightarrow>
             gillespie_loop_store propensity_func reactions max_time times_list' populations'
               current_time' current_state' h' stream')
      else Some (Inr (Condition_False, times_list, populations), h, stream))"
  by pat_completeness auto
termination
  by (relation "measure (\<lambda>(pf, rs, T, ts, ps, ct, cs, h, stream). length stream)")
     (auto simp: loop_body_def Let_def exponential_draw_def choice_draw_def copy_array_def
        new_array_def
        split: if_splits sum.splits option.splits list.splits prod.splits)

declare gillespie_loop_store.simps [simp del]

text \<open>
  The function as the source defines it: lines 27 to 30 copy the caller's array twice, the
  loop runs, and \<^verbatim>\<open>np.array(populations)\<close> reads the snapshots. The result comes with the
  process state the call leaves behind.
\<close>

definition gillespie_simulation_store ::
  "ref \<Rightarrow> (state_vec list \<Rightarrow> ref \<Rightarrow> real list) \<Rightarrow> state_vec list \<Rightarrow> real \<Rightarrow> process \<Rightarrow>
     ((error + trajectory) \<times> process) option" where
  "gillespie_simulation_store initial_state propensity_func reactions max_time \<sigma> =
     (let (h1, current_state) = copy_array (heap \<sigma>) initial_state;
          (h2, snapshot) = copy_array h1 current_state
      in case gillespie_loop_store propensity_func reactions max_time [0] [snapshot] 0
                current_state h2 (generator \<sigma>) of
           None \<Rightarrow> None
         | Some (Inl err, h, stream) \<Rightarrow> Some (Inl err, \<lparr>heap = h, generator = stream\<rparr>)
         | Some (Inr (ex, ts, ps), h, stream) \<Rightarrow>
             Some (Inr (ts, map (\<lambda>r. h ! r) ps), \<lparr>heap = h, generator = stream\<rparr>))"

text \<open>
  A propensity evaluator is a callable of the process: it is given the array and can read
  the memory (it is taken neither to write to it nor to draw from the generator). The
  specification asks for an evaluator whose rates depend on the contents of its argument
  alone; evaluators built from a function on contents are of that kind.
\<close>

definition on_contents :: "(state_vec \<Rightarrow> real list) \<Rightarrow> state_vec list \<Rightarrow> ref \<Rightarrow> real list" where
  "on_contents f h r = f (h ! r)"

definition reads_only_its_argument :: "(state_vec list \<Rightarrow> ref \<Rightarrow> real list) \<Rightarrow> bool" where
  "reads_only_its_argument propensity_func =
     (\<forall>h r h' r'. h ! r = h' ! r' \<longrightarrow> propensity_func h r = propensity_func h' r')"

text \<open>What an iteration and a finished loop hold once the references are read.\<close>

definition read_iteration ::
  "ref iteration \<times> state_vec list \<times> real list \<Rightarrow> state_vec iteration \<times> real list" where
  "read_iteration x = (case x of (it, h, stream) \<Rightarrow> (map_iteration ((!) h) it, stream))"

definition read_result ::
  "(error + exit \<times> real list \<times> ref list) \<times> state_vec list \<times> real list \<Rightarrow>
     (error + exit \<times> real list \<times> state_vec list) \<times> real list" where
  "read_result x =
     (case x of (res, h, stream) \<Rightarrow>
        (map_sum id (\<lambda>(ex, ts, ps). (ex, ts, map ((!) h) ps)) res, stream))"

text \<open>
  The loop's references are valid, and no recorded snapshot is the array that the loop
  updates in place.
\<close>

definition snapshots_apart :: "state_vec list \<Rightarrow> ref list \<Rightarrow> ref \<Rightarrow> bool" where
  "snapshots_apart h populations current_state =
     (current_state < length h \<and> list_all (\<lambda>r. r < length h \<and> r \<noteq> current_state) populations)"

text \<open>
  The draws of the value model, read off the generator's list: the variates taken by the
  two samplers alternate.
\<close>

fun pair_up :: "real list \<Rightarrow> draw list" where
  "pair_up (e # u # rest) = (e, u) # pair_up rest"
| "pair_up [e] = [(e, 0)]"
| "pair_up [] = []"

section \<open>Properties of states and trajectories\<close>

text \<open>A population vector without a negative component (signed reading).\<close>

definition nonneg_state :: "state_vec \<Rightarrow> bool" where
  "nonneg_state s = list_all (\<lambda>x. 0 \<le>s x) s"

text \<open>
  One reaction step between two recorded states: some row of the table is added to the
  earlier state and the negative components of the sum are raised to zero.
\<close>

definition fired_step :: "state_vec list \<Rightarrow> state_vec \<Rightarrow> state_vec \<Rightarrow> bool" where
  "fired_step reactions s s' =
     list_ex (\<lambda>row. case iadd s row of Inl err \<Rightarrow> False | Inr added \<Rightarrow> s' = maximum added 0)
       reactions"

text \<open>The component-wise difference of two recorded states.\<close>

definition state_diff :: "state_vec \<Rightarrow> state_vec \<Rightarrow> state_vec" where
  "state_diff later earlier = map2 (-) later earlier"

definition times_within :: "real \<Rightarrow> real list \<Rightarrow> bool" where
  "times_within max_time ts = list_all (\<lambda>t. t \<le> max_time) ts"

section \<open>Propensity evaluators for concrete runs\<close>

text \<open>
  The engine takes the propensity evaluator as an argument. Two families of evaluators
  serve as inputs of the concrete runs below: rates that do not depend on the state, and
  rates proportional to the population of one species each.
\<close>

definition constant_rates :: "real list \<Rightarrow> state_vec \<Rightarrow> real list" where
  "constant_rates rates s = rates"

definition linear_rates :: "real list \<Rightarrow> state_vec \<Rightarrow> real list" where
  "linear_rates ks s = map2 (\<lambda>k x. k * real_of_int (sint x)) ks s"

section \<open>Unfolding the loop\<close>

lemmas engine_eval =
  gillespie_simulation_def gillespie_run_def gillespie_loop.simps true_divide_def
  exponential_def divide_all_def choice_def atol_def searchsorted_right_def getitem_def
  iadd_def maximum_def word_sle_eq constant_rates_def linear_rates_def Let_def

lemma simulation_returns:
  "gillespie_simulation init pf rs T draws = Some (Inr (ts, ps)) \<longleftrightarrow>
   (\<exists>ex. gillespie_run init pf rs T draws = Some (Inr (ex, ts, ps)))"
  unfolding gillespie_simulation_def
  by (cases "gillespie_run init pf rs T draws")
     (auto simp: map_sum_def split: sum.splits)

lemma simulation_raises:
  "gillespie_simulation init pf rs T draws = Some (Inl err) \<longleftrightarrow>
   gillespie_run init pf rs T draws = Some (Inl err)"
  unfolding gillespie_simulation_def
  by (cases "gillespie_run init pf rs T draws")
     (auto simp: map_sum_def split: sum.splits)

lemma loop_exit_condition:
  "\<not> ct < T \<Longrightarrow> gillespie_loop pf rs T ts ps ct st draws = Some (Inr (Condition_False, ts, ps))"
  by (simp add: gillespie_loop.simps)

lemma loop_exit_absorbed:
  "ct < T \<Longrightarrow> sum_list (pf st) = 0 \<Longrightarrow>
   gillespie_loop pf rs T ts ps ct st draws = Some (Inr (Absorbed, ts, ps))"
  by (simp add: gillespie_loop.simps)

lemma loop_starved:
  "ct < T \<Longrightarrow> sum_list (pf st) \<noteq> 0 \<Longrightarrow> gillespie_loop pf rs T ts ps ct st [] = None"
  by (simp add: gillespie_loop.simps)

lemma loop_exit_truncated:
  "ct < T \<Longrightarrow> 0 < sum_list (pf st) \<Longrightarrow> T < ct + e / sum_list (pf st) \<Longrightarrow>
   gillespie_loop pf rs T ts ps ct st ((e, u) # rest) = Some (Inr (Truncated, ts @ [T], ps @ [st]))"
  by (simp add: gillespie_loop.simps true_divide_def exponential_def)

lemma loop_fired:
  "ct < T \<Longrightarrow> 0 < sum_list (pf st) \<Longrightarrow> \<not> T < ct + e / sum_list (pf st) \<Longrightarrow>
   choice (length (pf st)) (map (\<lambda>x. x / sum_list (pf st)) (pf st)) u = Inr idx \<Longrightarrow>
   idx < length rs \<Longrightarrow> iadd st (rs ! idx) = Inr added \<Longrightarrow>
   gillespie_loop pf rs T ts ps ct st ((e, u) # rest) =
   gillespie_loop pf rs T (ts @ [ct + e / sum_list (pf st)]) (ps @ [maximum added 0])
     (ct + e / sum_list (pf st)) (maximum added 0) rest"
  by (simp add: gillespie_loop.simps[of _ _ _ _ _ _ _ "_ # _"] true_divide_def exponential_def
        divide_all_def getitem_def Let_def)

lemma loop_returns_cases:
  assumes "gillespie_loop pf rs T ts ps ct st draws = Some (Inr (ex, ts', ps'))"
  obtains
    (condition) "\<not> ct < T" "ex = Condition_False" "ts' = ts" "ps' = ps"
  | (absorbed) "ct < T" "sum_list (pf st) = 0" "ex = Absorbed" "ts' = ts" "ps' = ps"
  | (truncated) e u rest where "draws = (e, u) # rest" "ct < T" "0 < sum_list (pf st)"
      "T < ct + e / sum_list (pf st)" "ex = Truncated" "ts' = ts @ [T]" "ps' = ps @ [st]"
  | (fired) e u rest idx added where "draws = (e, u) # rest" "ct < T" "0 < sum_list (pf st)"
      "ct + e / sum_list (pf st) \<le> T"
      "choice (length (pf st)) (map (\<lambda>x. x / sum_list (pf st)) (pf st)) u = Inr idx"
      "idx < length rs" "iadd st (rs ! idx) = Inr added"
      "gillespie_loop pf rs T (ts @ [ct + e / sum_list (pf st)]) (ps @ [maximum added 0])
         (ct + e / sum_list (pf st)) (maximum added 0) rest = Some (Inr (ex, ts', ps'))"
proof (cases "ct < T")
  case False
  with assms show ?thesis by (intro condition) (simp_all add: gillespie_loop.simps)
next
  case running: True
  show ?thesis
  proof (cases "sum_list (pf st) = 0")
    case True
    with assms running show ?thesis by (intro absorbed) (simp_all add: gillespie_loop.simps)
  next
    case nz: False
    show ?thesis
    proof (cases draws)
      case Nil
      with assms running nz show ?thesis by (simp add: loop_starved)
    next
      case (Cons d rest)
      obtain e u where d: "d = (e, u)" by (cases d)
      have pos: "0 < sum_list (pf st)"
        using assms running nz Cons d
        by (cases "sum_list (pf st) < 0")
           (auto simp: gillespie_loop.simps[of _ _ _ _ _ _ _ "_ # _"] true_divide_def exponential_def
                       divide_less_0_iff)
      show ?thesis
      proof (cases "T < ct + e / sum_list (pf st)")
        case True
        with assms running pos Cons d show ?thesis
          by (intro truncated[of e u rest]) (simp_all add: loop_exit_truncated)
      next
        case False
        have "\<exists>idx added.
                choice (length (pf st)) (map (\<lambda>x. x / sum_list (pf st)) (pf st)) u = Inr idx \<and>
                idx < length rs \<and> iadd st (rs ! idx) = Inr added \<and>
                gillespie_loop pf rs T (ts @ [ct + e / sum_list (pf st)])
                  (ps @ [maximum added 0]) (ct + e / sum_list (pf st))
                  (maximum added 0) rest = Some (Inr (ex, ts', ps'))"
          using assms running pos False Cons d
          by (auto simp: gillespie_loop.simps[of _ _ _ _ _ _ _ "_ # _"] true_divide_def
                exponential_def divide_all_def getitem_def Let_def split: sum.splits if_splits)
        then obtain idx added where
          "choice (length (pf st)) (map (\<lambda>x. x / sum_list (pf st)) (pf st)) u = Inr idx"
          "idx < length rs" "iadd st (rs ! idx) = Inr added"
          "gillespie_loop pf rs T (ts @ [ct + e / sum_list (pf st)])
             (ps @ [maximum added 0]) (ct + e / sum_list (pf st))
             (maximum added 0) rest = Some (Inr (ex, ts', ps'))"
          by blast
        with Cons d running pos False show ?thesis
          by (intro fired[of e u rest idx added]) simp_all
      qed
    qed
  qed
qed

section \<open>Invariants of the loop\<close>

lemma loop_extends:
  "gillespie_loop pf rs T ts ps ct st draws = Some (Inr (ex, ts', ps')) \<Longrightarrow>
   \<exists>xs ys. ts' = ts @ xs \<and> ps' = ps @ ys \<and> length xs = length ys"
proof (induction draws arbitrary: ts ps ct st)
  case Nil
  from Nil(1) show ?case by (cases rule: loop_returns_cases) (use Nil in simp_all)
next
  case (Cons d draws)
  from Cons.prems show ?case
  proof (cases rule: loop_returns_cases)
    case (fired e u rest idx added)
    from fired(1) have "rest = draws" by simp
    with fired(8) Cons.IH obtain xs ys where
      "ts' = (ts @ [ct + e / sum_list (pf st)]) @ xs" "ps' = (ps @ [maximum added 0]) @ ys"
      "length xs = length ys" by blast
    then show ?thesis by simp
  qed simp_all
qed

lemma maximum_nonneg: "nonneg_state (maximum xs 0)"
  by (induction xs) (simp_all add: maximum_def nonneg_state_def)

lemma loop_nonneg:
  "gillespie_loop pf rs T ts ps ct st draws = Some (Inr (ex, ts', ps')) \<Longrightarrow>
   list_all nonneg_state ps \<Longrightarrow> nonneg_state st \<Longrightarrow> list_all nonneg_state ps'"
proof (induction draws arbitrary: ts ps ct st)
  case Nil
  from Nil(1) show ?case by (cases rule: loop_returns_cases) (use Nil in simp_all)
next
  case (Cons d draws)
  from Cons.prems(1) show ?case
  proof (cases rule: loop_returns_cases)
    case (fired e u rest idx added)
    from fired(1) have "rest = draws" by simp
    with fired(8) Cons.IH[of _ "ps @ [maximum added 0]" _ "maximum added 0"] Cons.prems(2)
    show ?thesis by (simp add: maximum_nonneg)
  qed (use Cons.prems in simp_all)
qed

lemma loop_final:
  "gillespie_loop pf rs T ts ps ct st draws = Some (Inr (ex, ts', ps')) \<Longrightarrow>
   ts \<noteq> [] \<Longrightarrow> last ts = ct \<Longrightarrow> ps \<noteq> [] \<Longrightarrow> last ps = st \<Longrightarrow>
   (ex = Condition_False \<longrightarrow> T \<le> last ts') \<and>
   (ex = Absorbed \<longrightarrow> last ts' < T \<and> sum_list (pf (last ps')) = 0) \<and>
   (ex = Truncated \<longrightarrow> last ts' = T \<and> 2 \<le> length ps' \<and> ps' ! (length ps' - 2) = last ps') \<and>
   (ct \<le> T \<longrightarrow> last ts' \<le> T)"
proof (induction draws arbitrary: ts ps ct st)
  case Nil
  from Nil(1) show ?case by (cases rule: loop_returns_cases) (use Nil in simp_all)
next
  case (Cons d draws)
  from Cons.prems(1) show ?case
  proof (cases rule: loop_returns_cases)
    case (fired e u rest idx added)
    from fired(1) have "rest = draws" by simp
    with fired(8) Cons.IH[of "ts @ [ct + e / sum_list (pf st)]" "ps @ [maximum added 0]"
         "ct + e / sum_list (pf st)" "maximum added 0"] fired(4)
    show ?thesis by simp
  next
    case (truncated e u rest)
    from Cons.prems(4,5) have "Suc 0 \<le> length ps" "ps ! (length ps - Suc 0) = st"
      by (simp_all add: Suc_le_eq last_conv_nth)
    with truncated(2,5,6,7) show ?thesis by (simp add: nth_append)
  qed (use Cons.prems in simp_all)
qed

lemma sorted_le_last:
  fixes xs :: "real list"
  shows "sorted xs \<Longrightarrow> y \<in> set xs \<Longrightarrow> y \<le> last xs"
  by (induction xs) auto

lemma sorted_snoc_last:
  fixes xs :: "real list"
  shows "sorted xs \<Longrightarrow> xs \<noteq> [] \<Longrightarrow> last xs \<le> x \<Longrightarrow> sorted (xs @ [x])"
  using sorted_le_last[of xs] by (fastforce simp: sorted_append)

lemma loop_sorted:
  "gillespie_loop pf rs T ts ps ct st draws = Some (Inr (ex, ts', ps')) \<Longrightarrow>
   list_all well_formed_draw draws \<Longrightarrow> sorted ts \<Longrightarrow> ts \<noteq> [] \<Longrightarrow> last ts = ct \<Longrightarrow> sorted ts'"
proof (induction draws arbitrary: ts ps ct st)
  case Nil
  from Nil(1) show ?case by (cases rule: loop_returns_cases) (use Nil in simp_all)
next
  case (Cons d draws)
  from Cons.prems(1) show ?case
  proof (cases rule: loop_returns_cases)
    case (fired e u rest idx added)
    from fired(1) have rest: "rest = draws" and d: "d = (e, u)" by simp_all
    from d Cons.prems(2) have "0 \<le> e" by (simp add: well_formed_draw_def)
    with fired(3) have "ct \<le> ct + e / sum_list (pf st)" by simp
    with Cons.prems have "sorted (ts @ [ct + e / sum_list (pf st)])"
      by (intro sorted_snoc_last) simp_all
    with fired(8) rest Cons.IH[of "ts @ [ct + e / sum_list (pf st)]" _ "ct + e / sum_list (pf st)"]
      Cons.prems(2)
    show ?thesis by simp
  next
    case (truncated e u rest)
    with Cons.prems show ?thesis by (simp add: sorted_snoc_last)
  qed (use Cons.prems in simp_all)
qed

lemma successively_snoc_last:
  "successively P xs \<Longrightarrow> xs \<noteq> [] \<Longrightarrow> P (last xs) x \<Longrightarrow> successively P (xs @ [x])"
  by (simp add: successively_append_iff)

lemma fired_stepI:
  "idx < length rs \<Longrightarrow> iadd st (rs ! idx) = Inr added \<Longrightarrow> fired_step rs st (maximum added 0)"
  unfolding fired_step_def list_ex_iff by (rule bexI[of _ "rs ! idx"]) simp_all

lemma loop_successive:
  "gillespie_loop pf rs T ts ps ct st draws = Some (Inr (ex, ts', ps')) \<Longrightarrow>
   successively (fired_step rs) ps \<Longrightarrow> ps \<noteq> [] \<Longrightarrow> last ps = st \<Longrightarrow>
   successively (fired_step rs) (if ex = Truncated then butlast ps' else ps')"
proof (induction draws arbitrary: ts ps ct st)
  case Nil
  from Nil(1) show ?case by (cases rule: loop_returns_cases) (use Nil in simp_all)
next
  case (Cons d draws)
  from Cons.prems(1) show ?case
  proof (cases rule: loop_returns_cases)
    case (fired e u rest idx added)
    from fired(1) have rest: "rest = draws" by simp
    from fired(6,7) have "fired_step rs st (maximum added 0)" by (rule fired_stepI)
    with Cons.prems have "successively (fired_step rs) (ps @ [maximum added 0])"
      by (intro successively_snoc_last) simp_all
    with fired(8) rest Cons.IH[of _ "ps @ [maximum added 0]" _ "maximum added 0"]
    show ?thesis by simp
  qed (use Cons.prems in simp_all)
qed

section \<open>Unreachable errors\<close>

lemma loop_no_zero_division:
  "gillespie_loop pf rs T ts ps ct st draws \<noteq> Some (Inl ZeroDivisionError)"
proof (induction draws arbitrary: ts ps ct st)
  case Nil
  show ?case
    by (cases "ct < T"; cases "sum_list (pf st) = 0")
       (simp_all add: loop_exit_condition loop_exit_absorbed loop_starved)
next
  case (Cons d draws)
  obtain e u where d: "d = (e, u)" by (cases d)
  show ?case
    unfolding d
    by (subst gillespie_loop.simps)
       (auto simp: Let_def Cons.IH true_divide_def exponential_def divide_all_def choice_def
             getitem_def iadd_def split: sum.splits if_splits)
qed

lemma length_cumsum: "length (cumsum a xs) = length xs"
  by (induction xs arbitrary: a) simp_all

lemma cumsum_eq_Nil: "cumsum a xs = [] \<longleftrightarrow> xs = []"
  by (cases xs) simp_all

lemma last_cumsum: "xs \<noteq> [] \<Longrightarrow> last (cumsum a xs) = a + sum_list xs"
  by (induction xs arbitrary: a) (auto simp: cumsum_eq_Nil add.assoc)

lemma atol_less_one: "atol < 1"
  by (simp add: atol_def)

lemma searchsorted_right_less:
  "cdf \<noteq> [] \<Longrightarrow> u < last cdf \<Longrightarrow> searchsorted_right cdf u < length cdf"
proof -
  assume ne: "cdf \<noteq> []" and lt: "u < last cdf"
  have "takeWhile (\<lambda>c. c \<le> u) cdf \<noteq> cdf"
  proof
    assume "takeWhile (\<lambda>c. c \<le> u) cdf = cdf"
    then have "\<forall>c\<in>set cdf. c \<le> u" by (simp add: takeWhile_eq_all_conv)
    with ne have "last cdf \<le> u" by simp
    with lt show False by simp
  qed
  moreover have "length (takeWhile (\<lambda>c. c \<le> u) cdf) \<le> length cdf"
    by (rule length_takeWhile_le)
  ultimately show ?thesis
    unfolding searchsorted_right_def
    by (metis le_neq_implies_less takeWhile_eq_take take_all_iff order_refl)
qed

lemma choice_in_range:
  assumes "choice n p u = Inr idx" "u < 1"
  shows "idx < n"
proof -
  from assms(1) have n: "n \<noteq> 0" "length p = n" and sum: "\<bar>sum_list p - 1\<bar> \<le> atol"
    and idx: "idx = searchsorted_right (map (\<lambda>c. c / last (cumsum 0 p)) (cumsum 0 p)) u"
    by (auto simp: choice_def split: if_splits)
  from n have ne: "p \<noteq> []" by auto
  then have cne: "cumsum 0 p \<noteq> []" using length_cumsum[of 0 p] by auto
  from sum atol_less_one have "0 < sum_list p" by linarith
  with ne have "last (cumsum 0 p) \<noteq> 0" by (simp add: last_cumsum)
  with cne have "last (map (\<lambda>c. c / last (cumsum 0 p)) (cumsum 0 p)) = 1"
    by (simp add: last_map)
  with cne assms(2) have "idx < length (map (\<lambda>c. c / last (cumsum 0 p)) (cumsum 0 p))"
    unfolding idx by (intro searchsorted_right_less) simp_all
  with n show ?thesis by (simp add: length_cumsum)
qed

lemma choice_error: "choice n p u = Inl err \<Longrightarrow> err = ValueError"
  by (auto simp: choice_def split: if_splits)

lemma loop_raises_index_error:
  "ct < T \<Longrightarrow> 0 < sum_list (pf st) \<Longrightarrow> ct + e / sum_list (pf st) \<le> T \<Longrightarrow>
   choice (length (pf st)) (map (\<lambda>x. x / sum_list (pf st)) (pf st)) u = Inr idx \<Longrightarrow>
   length rs \<le> idx \<Longrightarrow>
   gillespie_loop pf rs T ts ps ct st ((e, u) # rest) = Some (Inl IndexError)"
  by (simp add: gillespie_loop.simps[of _ _ _ _ _ _ _ "_ # _"] true_divide_def exponential_def
        divide_all_def getitem_def Let_def)

lemma loop_no_index_error:
  "list_all well_formed_draw draws \<Longrightarrow> (\<And>s. length (pf s) \<le> length rs) \<Longrightarrow>
   gillespie_loop pf rs T ts ps ct st draws \<noteq> Some (Inl IndexError)"
proof (induction draws arbitrary: ts ps ct st)
  case Nil
  show ?case
    by (cases "ct < T"; cases "sum_list (pf st) = 0")
       (simp_all add: loop_exit_condition loop_exit_absorbed loop_starved)
next
  case (Cons d draws)
  obtain e u where d: "d = (e, u)" by (cases d)
  from Cons.prems(1) have "well_formed_draw d" and wf: "list_all well_formed_draw draws"
    by simp_all
  with d have u: "u < 1" by (simp add: well_formed_draw_def)
  have bound: "idx < length rs"
    if "choice (length (pf st)) (map (\<lambda>x. x / sum_list (pf st)) (pf st)) u = Inr idx" for idx
    using choice_in_range[OF that u] Cons.prems(2)[of st] by simp
  show ?case
    unfolding d
    by (subst gillespie_loop.simps)
       (auto simp: Let_def Cons.IH[OF wf Cons.prems(2)] true_divide_def exponential_def divide_all_def
             getitem_def iadd_def dest: bound choice_error split: sum.splits if_splits)
qed

section \<open>Reaction steps and row differences\<close>

lemma maximum_nonneg_id: "nonneg_state xs \<Longrightarrow> maximum xs 0 = xs"
  by (induction xs) (simp_all add: maximum_def nonneg_state_def)

lemma state_diff_add: "length row = length s \<Longrightarrow> state_diff (map2 (+) s row) s = row"
  unfolding state_diff_def
  by (induction row s rule: list_induct2) simp_all

lemma unclamped_difference:
  "iadd s row = Inr added \<Longrightarrow> length row = length s \<Longrightarrow> nonneg_state added \<Longrightarrow>
   state_diff (maximum added 0) s = row"
  by (auto simp: iadd_def maximum_nonneg_id state_diff_add)

lemma fired_stepD:
  "fired_step rs s s' \<Longrightarrow>
   \<exists>row added. row \<in> set rs \<and> iadd s row = Inr added \<and> s' = maximum added 0"
proof -
  assume "fired_step rs s s'"
  then obtain row where row: "row \<in> set rs"
    and step: "case iadd s row of Inl err \<Rightarrow> False | Inr added \<Rightarrow> s' = maximum added 0"
    unfolding fired_step_def list_ex_iff by blast
  from step obtain added where "iadd s row = Inr added" "s' = maximum added 0"
    by (cases "iadd s row") simp_all
  with row show ?thesis by blast
qed

section \<open>The engine on the state of the process: frame, independence of the memory, refinement\<close>

lemmas store_eval = gillespie_simulation_store_def gillespie_loop_store.simps loop_body_def
  copy_array_def new_array_def exponential_draw_def choice_draw_def seed_def on_contents_def
  true_divide_def divide_all_def atol_def searchsorted_right_def getitem_def iadd_def maximum_def
  word_sle_eq linear_rates_def constant_rates_def Let_def

lemma map_nth_append_old:
  "list_all (\<lambda>r. r < length h \<and> r \<noteq> c) ps \<Longrightarrow> map ((!) (h @ xs)) ps = map ((!) h) ps"
  by (induction ps) (simp_all add: nth_append)

lemma map_nth_update_old:
  "list_all (\<lambda>r. r < length h \<and> r \<noteq> c) ps \<Longrightarrow> map ((!) (h[c := v] @ xs)) ps = map ((!) h) ps"
  by (induction ps) (simp_all add: nth_append)

lemma body_frame:
  "loop_body pf rs T ts ps ct cs h s = Some (it, h1, s1) \<Longrightarrow>
   length h \<le> length h1 \<and> (\<forall>r<length h. r \<noteq> cs \<longrightarrow> h1 ! r = h ! r)"
  by (auto simp: loop_body_def Let_def copy_array_def new_array_def nth_append
        split: if_splits sum.splits option.splits prod.splits)

lemma body_continued:
  "loop_body pf rs T ts ps ct cs h s = Some (Continued ts1 ps1 ct1 cs1, h1, s1) \<Longrightarrow>
   cs < length h \<Longrightarrow>
   ps1 = ps @ [Suc (length h)] \<and> cs1 = length h \<and> length h1 = Suc (Suc (length h)) \<and>
   length s1 < length s"
  by (auto simp: loop_body_def Let_def copy_array_def new_array_def exponential_draw_def
        choice_draw_def
        split: if_splits sum.splits option.splits prod.splits list.splits)

lemma body_rel:
  assumes "pf h cs = pf h' cs'" "h ! cs = h' ! cs'"
    and "snapshots_apart h ps cs" "snapshots_apart h' ps' cs'"
    and "map ((!) h) ps = map ((!) h') ps'"
  shows "map_option read_iteration (loop_body pf rs T ts ps ct cs h s) =
         map_option read_iteration (loop_body pf rs T ts ps' ct cs' h' s)"
  using assms
  by (auto simp: loop_body_def Let_def copy_array_def new_array_def read_iteration_def
        snapshots_apart_def map_nth_append_old map_nth_update_old nth_append
        split: if_splits sum.splits option.splits prod.splits)

lemma loop_store_frame:
  "gillespie_loop_store pf rs T ts ps ct cs h s = Some (res, hf, rest) \<Longrightarrow> cs < length h \<Longrightarrow>
   length h \<le> length hf \<and> (\<forall>r<length h. r \<noteq> cs \<longrightarrow> hf ! r = h ! r)"
proof (induction "length s" arbitrary: ts ps ct cs h s rule: less_induct)
  case less
  show ?case
  proof (cases "ct < T")
    case False
    with less.prems show ?thesis by (simp add: gillespie_loop_store.simps)
  next
    case True
    with less.prems(1) obtain it h1 s1 where
      body: "loop_body pf rs T ts ps ct cs h s = Some (it, h1, s1)"
      by (auto simp: gillespie_loop_store.simps[of pf rs T ts ps ct cs h s] split: option.splits)
    note frame = body_frame[OF body]
    show ?thesis
    proof (cases it)
      case (Raised err)
      with less.prems(1) True body frame show ?thesis
        by (simp add: gillespie_loop_store.simps[of pf rs T ts ps ct cs h s])
    next
      case (Stopped ex ts1 ps1)
      with less.prems(1) True body frame show ?thesis
        by (simp add: gillespie_loop_store.simps[of pf rs T ts ps ct cs h s])
    next
      case (Continued ts1 ps1 ct1 cs1)
      with body have body': "loop_body pf rs T ts ps ct cs h s = Some (Continued ts1 ps1 ct1 cs1, h1, s1)"
        by simp
      from body_continued[OF body' less.prems(2)] have
        cs1: "cs1 = length h" "length h1 = Suc (Suc (length h))" and shorter: "length s1 < length s"
        by simp_all
      from less.prems(1) True body' have
        "gillespie_loop_store pf rs T ts1 ps1 ct1 cs1 h1 s1 = Some (res, hf, rest)"
        by (simp add: gillespie_loop_store.simps[of pf rs T ts ps ct cs h s])
      from less.hyps[OF shorter this] cs1 have
        "length h1 \<le> length hf" "\<forall>r<length h1. r \<noteq> cs1 \<longrightarrow> hf ! r = h1 ! r"
        by simp_all
      with frame cs1 show ?thesis by auto
    qed
  qed
qed

lemma loop_store_rel:
  assumes "reads_only_its_argument pf"
  shows "h ! cs = h' ! cs' \<Longrightarrow> snapshots_apart h ps cs \<Longrightarrow> snapshots_apart h' ps' cs' \<Longrightarrow>
     map ((!) h) ps = map ((!) h') ps' \<Longrightarrow>
     map_option read_result (gillespie_loop_store pf rs T ts ps ct cs h s) =
     map_option read_result (gillespie_loop_store pf rs T ts ps' ct cs' h' s)"
proof (induction "length s" arbitrary: ts ps ct cs h s ps' cs' h' rule: less_induct)
  case less
  from assms less.prems(1) have pf: "pf h cs = pf h' cs'"
    unfolding reads_only_its_argument_def by blast
  show ?case
  proof (cases "ct < T")
    case False
    with less.prems show ?thesis
      by (simp add: gillespie_loop_store.simps read_result_def)
  next
    case True
    note rel = body_rel[OF pf less.prems(1,2,3,4), of rs T ts ct s]
    show ?thesis
    proof (cases "loop_body pf rs T ts ps ct cs h s")
      case None
      with rel have "loop_body pf rs T ts ps' ct cs' h' s = None" by simp
      with None True show ?thesis
        by (simp add: gillespie_loop_store.simps[of pf rs T ts _ ct _ _ s])
    next
      case (Some a)
      obtain it h1 s1 where a: "a = (it, h1, s1)" by (cases a)
      from Some a rel obtain it' h1' where
        body': "loop_body pf rs T ts ps' ct cs' h' s = Some (it', h1', s1)"
        and same: "map_iteration ((!) h1) it = map_iteration ((!) h1') it'"
        by (cases "loop_body pf rs T ts ps' ct cs' h' s") (auto simp: read_iteration_def)
      from Some a have body: "loop_body pf rs T ts ps ct cs h s = Some (it, h1, s1)" by simp
      show ?thesis
      proof (cases it)
        case (Raised err)
        with same have "it' = Raised err" by (cases it') simp_all
        with Raised body body' True show ?thesis
          by (simp add: gillespie_loop_store.simps[of pf rs T ts _ ct _ _ s] read_result_def)
      next
        case (Stopped ex ts1 ps1)
        with same obtain ps1' where "it' = Stopped ex ts1 ps1'"
          "map ((!) h1) ps1 = map ((!) h1') ps1'"
          by (cases it') simp_all
        with Stopped body body' True show ?thesis
          by (simp add: gillespie_loop_store.simps[of pf rs T ts _ ct _ _ s] read_result_def)
      next
        case (Continued ts1 ps1 ct1 cs1)
        with same obtain ps1' cs1' where it': "it' = Continued ts1 ps1' ct1 cs1'"
          and vals: "map ((!) h1) ps1 = map ((!) h1') ps1'" "h1 ! cs1 = h1' ! cs1'"
          by (cases it') simp_all
        from less.prems(2,3) have cs: "cs < length h" "cs' < length h'"
          by (simp_all add: snapshots_apart_def)
        from body Continued have b: "loop_body pf rs T ts ps ct cs h s =
            Some (Continued ts1 ps1 ct1 cs1, h1, s1)" by simp
        from body' it' have b': "loop_body pf rs T ts ps' ct cs' h' s =
            Some (Continued ts1 ps1' ct1 cs1', h1', s1)" by simp
        note c = body_continued[OF b cs(1)] and c' = body_continued[OF b' cs(2)]
        from c less.prems(2) have apart: "snapshots_apart h1 ps1 cs1"
          by (auto simp: snapshots_apart_def list_all_iff)
        from c' less.prems(3) have apart': "snapshots_apart h1' ps1' cs1'"
          by (auto simp: snapshots_apart_def list_all_iff)
        from c have shorter: "length s1 < length s" by simp
        from less.hyps[OF shorter vals(2) apart apart' vals(1), of ts1 ct1] b b' True
        show ?thesis
          by (simp add: gillespie_loop_store.simps[of pf rs T ts _ ct _ _ s])
      qed
    qed
  qed
qed

lemma on_contents_reads_only_its_argument: "reads_only_its_argument (on_contents f)"
  by (simp add: reads_only_its_argument_def on_contents_def)

lemma simulation_store_frame:
  assumes "gillespie_simulation_store i pf rs T \<sigma> = Some (res, \<sigma>1)" "r < length (heap \<sigma>)"
  shows "heap \<sigma>1 ! r = heap \<sigma> ! r"
proof -
  let ?h1 = "heap \<sigma> @ [heap \<sigma> ! i]"
  let ?h2 = "?h1 @ [?h1 ! length (heap \<sigma>)]"
  from assms(1) obtain out hf rest where
    loop: "gillespie_loop_store pf rs T [0] [Suc (length (heap \<sigma>))] 0 (length (heap \<sigma>)) ?h2
        (generator \<sigma>) = Some (out, hf, rest)" and hf: "heap \<sigma>1 = hf"
    by (auto simp: gillespie_simulation_store_def copy_array_def Let_def
          split: option.splits sum.splits prod.splits)
  from loop_store_frame[OF loop] assms(2) have "hf ! r = ?h2 ! r" by simp
  with assms(2) hf show ?thesis by (simp add: nth_append)
qed

lemma simulation_store_reads_loop:
  "map_option fst (gillespie_simulation_store i pf rs T \<sigma>) =
   map_option (\<lambda>x. map_sum id snd (fst x))
     (map_option read_result
        (gillespie_loop_store pf rs T [0] [Suc (length (heap \<sigma>))] 0 (length (heap \<sigma>))
           ((heap \<sigma> @ [heap \<sigma> ! i]) @ [(heap \<sigma> @ [heap \<sigma> ! i]) ! length (heap \<sigma>)])
           (generator \<sigma>)))"
  unfolding gillespie_simulation_store_def copy_array_def Let_def
  by (auto simp: read_result_def split: option.splits sum.splits prod.splits)

lemma simulation_store_rel:
  assumes "reads_only_its_argument pf" "i < length (heap \<sigma>)" "i' < length (heap \<sigma>')"
    and "heap \<sigma> ! i = heap \<sigma>' ! i'" "generator \<sigma> = generator \<sigma>'"
  shows "map_option fst (gillespie_simulation_store i pf rs T \<sigma>) =
         map_option fst (gillespie_simulation_store i' pf rs T \<sigma>')"
proof -
  let ?n = "length (heap \<sigma>)" and ?n' = "length (heap \<sigma>')"
  let ?h2 = "(heap \<sigma> @ [heap \<sigma> ! i]) @ [(heap \<sigma> @ [heap \<sigma> ! i]) ! ?n]"
  let ?h2' = "(heap \<sigma>' @ [heap \<sigma>' ! i']) @ [(heap \<sigma>' @ [heap \<sigma>' ! i']) ! ?n']"
  have "map_option read_result
          (gillespie_loop_store pf rs T [0] [Suc ?n] 0 ?n ?h2 (generator \<sigma>)) =
        map_option read_result
          (gillespie_loop_store pf rs T [0] [Suc ?n'] 0 ?n' ?h2' (generator \<sigma>))"
    using assms(4)
    by (intro loop_store_rel[OF assms(1)]) (simp_all add: snapshots_apart_def nth_append)
  then show ?thesis
    unfolding simulation_store_reads_loop assms(5)[symmetric] by (rule arg_cong)
qed

lemma pair_up_head: "\<exists>u rest. pair_up (e # s) = (e, u) # rest"
  by (cases s) simp_all

lemma body_stopped_cases:
  assumes "loop_body (on_contents f) rs T ts ps ct cs h s = Some (Stopped ex ts1 ps1, h1, s1)"
  obtains
    (absorbed) "sum_list (f (h ! cs)) = 0" "ex = Absorbed" "ts1 = ts" "ps1 = ps" "h1 = h"
  | (truncated) e where "s = e # s1" "0 < sum_list (f (h ! cs))"
      "T < ct + e / sum_list (f (h ! cs))" "ex = Truncated" "ts1 = ts @ [T]"
      "ps1 = ps @ [length h]" "h1 = h @ [h ! cs]"
proof (cases "sum_list (f (h ! cs)) = 0")
  case True
  with assms show ?thesis
    by (intro absorbed) (simp_all add: loop_body_def on_contents_def)
next
  case False
  with assms have pos: "0 < sum_list (f (h ! cs))"
    by (cases "sum_list (f (h ! cs)) < 0")
       (auto simp: loop_body_def on_contents_def Let_def true_divide_def exponential_draw_def
          divide_less_0_iff split: if_splits)
  with assms False obtain e where "s = e # s1 \<and> T < ct + e / sum_list (f (h ! cs)) \<and>
      ex = Truncated \<and> ts1 = ts @ [T] \<and> ps1 = ps @ [length h] \<and> h1 = h @ [h ! cs]"
    by (auto simp: loop_body_def on_contents_def Let_def true_divide_def exponential_draw_def
          copy_array_def new_array_def
          split: if_splits sum.splits option.splits prod.splits list.splits)
  with pos show ?thesis by (intro truncated[of e]) simp_all
qed

lemma body_continued_cases:
  assumes "loop_body (on_contents f) rs T ts ps ct cs h s = Some (Continued ts1 ps1 ct1 cs1, h1, s1)"
  obtains e u idx added where "s = e # u # s1" "0 < sum_list (f (h ! cs))"
    "\<not> T < ct + e / sum_list (f (h ! cs))"
    "choice (length (f (h ! cs))) (map (\<lambda>x. x / sum_list (f (h ! cs))) (f (h ! cs))) u = Inr idx"
    "idx < length rs" "iadd (h ! cs) (rs ! idx) = Inr added"
    "ts1 = ts @ [ct + e / sum_list (f (h ! cs))]" "ct1 = ct + e / sum_list (f (h ! cs))"
    "ps1 = ps @ [Suc (length h)]" "cs1 = length h"
    "h1 = h[cs := added] @ [maximum (h[cs := added] ! cs) 0, maximum (h[cs := added] ! cs) 0]"
proof -
  from assms have nz: "sum_list (f (h ! cs)) \<noteq> 0"
    by (auto simp: loop_body_def on_contents_def Let_def)
  with assms have pos: "0 < sum_list (f (h ! cs))"
    by (cases "sum_list (f (h ! cs)) < 0")
       (auto simp: loop_body_def on_contents_def Let_def true_divide_def exponential_draw_def
          divide_less_0_iff split: if_splits)
  with assms nz have "\<exists>e u idx added. s = e # u # s1 \<and>
      \<not> T < ct + e / sum_list (f (h ! cs)) \<and>
      choice (length (f (h ! cs))) (map (\<lambda>x. x / sum_list (f (h ! cs))) (f (h ! cs))) u = Inr idx \<and>
      idx < length rs \<and> iadd (h ! cs) (rs ! idx) = Inr added \<and>
      ts1 = ts @ [ct + e / sum_list (f (h ! cs))] \<and> ct1 = ct + e / sum_list (f (h ! cs)) \<and>
      ps1 = ps @ [Suc (length h)] \<and> cs1 = length h \<and>
      h1 = h[cs := added] @ [maximum (h[cs := added] ! cs) 0, maximum (h[cs := added] ! cs) 0]"
    by (auto simp: loop_body_def on_contents_def Let_def true_divide_def exponential_draw_def
          choice_draw_def choice_def divide_all_def getitem_def copy_array_def new_array_def
          nth_append
          split: if_splits sum.splits option.splits prod.splits list.splits)
  with pos that show ?thesis by blast
qed

lemma loop_store_refines:
  "gillespie_loop_store (on_contents f) rs T ts ps ct cs h s = Some (Inr (ex, ts', ps'), hf, rest) \<Longrightarrow>
   snapshots_apart h ps cs \<Longrightarrow>
   gillespie_loop f rs T ts (map ((!) h) ps) ct (h ! cs) (pair_up s) =
     Some (Inr (ex, ts', map ((!) hf) ps'))"
proof (induction "length s" arbitrary: ts ps ct cs h s rule: less_induct)
  case less
  note apart = less.prems(2)
  then have cs: "cs < length h" and old: "list_all (\<lambda>r. r < length h \<and> r \<noteq> cs) ps"
    by (simp_all add: snapshots_apart_def)
  show ?case
  proof (cases "ct < T")
    case False
    with less.prems(1) show ?thesis
      by (simp add: gillespie_loop_store.simps loop_exit_condition)
  next
    case True
    with less.prems(1) obtain it h1 s1 where
      body: "loop_body (on_contents f) rs T ts ps ct cs h s = Some (it, h1, s1)"
      by (auto simp: gillespie_loop_store.simps[of _ rs T ts ps ct cs h s] split: option.splits)
    show ?thesis
    proof (cases it)
      case (Raised err)
      with less.prems(1) True body show ?thesis
        by (simp add: gillespie_loop_store.simps[of _ rs T ts ps ct cs h s])
    next
      case (Stopped ex1 ts1 ps1)
      with less.prems(1) True body have out: "ex1 = ex" "ts1 = ts'" "ps1 = ps'" "h1 = hf"
        by (simp_all add: gillespie_loop_store.simps[of _ rs T ts ps ct cs h s])
      from body Stopped have
        "loop_body (on_contents f) rs T ts ps ct cs h s = Some (Stopped ex1 ts1 ps1, h1, s1)"
        by simp
      then show ?thesis
      proof (cases rule: body_stopped_cases)
        case absorbed
        with out True show ?thesis by (simp add: loop_exit_absorbed)
      next
        case (truncated e)
        from pair_up_head[of e s1] obtain u rest' where "pair_up (e # s1) = (e, u) # rest'"
          by blast
        with truncated out True old show ?thesis
          by (simp add: loop_exit_truncated map_nth_append_old)
      qed
    next
      case (Continued ts1 ps1 ct1 cs1)
      with body have b:
        "loop_body (on_contents f) rs T ts ps ct cs h s = Some (Continued ts1 ps1 ct1 cs1, h1, s1)"
        by simp
      from less.prems(1) True b have rec:
        "gillespie_loop_store (on_contents f) rs T ts1 ps1 ct1 cs1 h1 s1 =
           Some (Inr (ex, ts', ps'), hf, rest)"
        by (simp add: gillespie_loop_store.simps[of _ rs T ts ps ct cs h s])
      from b show ?thesis
      proof (cases rule: body_continued_cases)
        case (1 e u idx added)
        from 1(1) have shorter: "length s1 < length s" by simp
        from 1(9,10,11) cs old have apart1: "snapshots_apart h1 ps1 cs1"
          by (auto simp: snapshots_apart_def list_all_iff)
        from 1(9,10,11) cs old have vals:
          "map ((!) h1) ps1 = map ((!) h) ps @ [maximum added 0]" "h1 ! cs1 = maximum added 0"
          by (simp_all add: map_nth_update_old nth_append)
        from less.hyps[OF shorter rec apart1] vals 1(7,8) have
          "gillespie_loop f rs T (ts @ [ct + e / sum_list (f (h ! cs))])
             (map ((!) h) ps @ [maximum added 0]) (ct + e / sum_list (f (h ! cs)))
             (maximum added 0) (pair_up s1) = Some (Inr (ex, ts', map ((!) hf) ps'))"
          by simp
        with 1 True show ?thesis by (simp add: loop_fired)
      qed
    qed
  qed
qed

lemma store_model_refines_value_model:
  "gillespie_simulation_store i (on_contents f) rs T \<sigma> = Some (Inr traj, \<sigma>1) \<Longrightarrow>
   gillespie_simulation (heap \<sigma> ! i) f rs T (pair_up (generator \<sigma>)) = Some (Inr traj)"
proof -
  let ?n = "length (heap \<sigma>)"
  let ?h2 = "(heap \<sigma> @ [heap \<sigma> ! i]) @ [(heap \<sigma> @ [heap \<sigma> ! i]) ! ?n]"
  assume "gillespie_simulation_store i (on_contents f) rs T \<sigma> = Some (Inr traj, \<sigma>1)"
  then obtain ex ts ps hf rest where
    loop: "gillespie_loop_store (on_contents f) rs T [0] [Suc ?n] 0 ?n ?h2 (generator \<sigma>) =
        Some (Inr (ex, ts, ps), hf, rest)" and traj: "traj = (ts, map ((!) hf) ps)"
    by (auto simp: gillespie_simulation_store_def copy_array_def Let_def
          split: option.splits sum.splits prod.splits)
  have "snapshots_apart ?h2 [Suc ?n] ?n" by (simp add: snapshots_apart_def)
  from loop_store_refines[OF loop this] traj show ?thesis
    by (simp add: gillespie_simulation_def gillespie_run_def nth_append)
qed

section \<open>The claims\<close>

subsection \<open>C1: start and final time of the trajectory\<close>

text \<open>
  Claim C1, as stated for every horizon, fails for a negative horizon: the loop is not
  entered and the single recorded time 0 lies beyond the horizon.
\<close>

theorem negative_horizon_counterexample:
  "gillespie_simulation [1] (constant_rates [1]) [[1]] (- 1) [] = Some (Inr ([0], [[1]])) \<and>
   \<not> last [0::real] \<le> - 1"
  by (simp add: engine_eval)

text \<open>
  Claim C1, amended: for every horizon that is not negative, a returned trajectory is
  non-empty, has as many states as times, starts with time 0 and the initial state, and
  its last time is at most the horizon.
\<close>

theorem trajectory_start_and_final_time:
  "0 \<le> max_time \<Longrightarrow>
   gillespie_simulation initial_state propensity_func reactions max_time draws = Some (Inr (ts, ps)) \<Longrightarrow>
   ts \<noteq> [] \<and> length ps = length ts \<and> hd ts = 0 \<and> hd ps = initial_state \<and> last ts \<le> max_time"
proof -
  assume horizon: "0 \<le> max_time"
    and "gillespie_simulation initial_state propensity_func reactions max_time draws = Some (Inr (ts, ps))"
  then obtain ex where run:
    "gillespie_loop propensity_func reactions max_time [0] [initial_state] 0 initial_state draws =
       Some (Inr (ex, ts, ps))"
    by (auto simp: simulation_returns gillespie_run_def)
  from loop_extends[OF run] obtain xs ys where
    "ts = [0] @ xs" "ps = [initial_state] @ ys" "length xs = length ys" by blast
  moreover from loop_final[OF run] horizon have "last ts \<le> max_time" by simp
  ultimately show ?thesis by simp
qed

theorem trajectory_start_and_final_time_witness:
  "(0::real) \<le> 2 \<and>
   gillespie_simulation [0] (constant_rates [1]) [[- 1]] 2 [(1, 0), (3, 0)] =
     Some (Inr ([0, 1, 2], [[0], [0], [0]])) \<and>
   [0, 1, 2::real] \<noteq> [] \<and> length [[0], [0], [0::64 word]] = length [0, 1, 2::real] \<and>
   hd [0, 1, 2::real] = 0 \<and> hd [[0], [0], [0::64 word]] = [0] \<and> last [0, 1, 2::real] \<le> 2"
  using trajectory_start_and_final_time[of 2 "[0]" "constant_rates [1]" "[[- 1]]" "[(1, 0), (3, 0)]"
      "[0, 1, 2]" "[[0], [0], [0]]"]
  by (simp add: engine_eval)

subsection \<open>C2: absorption\<close>

text \<open>
  Claim C2: when the propensity sum at the current state is zero the loop stops and returns
  the trajectory accumulated so far, with no further point; and whenever the final time of
  a returned trajectory is strictly below the horizon, the propensities at the final
  recorded state sum to exactly zero.
\<close>

theorem absorption_stops_the_run:
  "(current_time < max_time \<and> sum_list (propensity_func current_state) = 0 \<longrightarrow>
      gillespie_loop propensity_func reactions max_time times_list populations current_time
        current_state draws = Some (Inr (Absorbed, times_list, populations))) \<and>
   (gillespie_simulation initial_state propensity_func reactions max_time draws = Some (Inr (ts, ps)) \<and>
      last ts < max_time \<longrightarrow> sum_list (propensity_func (last ps)) = 0)"
proof (intro conjI impI)
  assume "current_time < max_time \<and> sum_list (propensity_func current_state) = 0"
  then show "gillespie_loop propensity_func reactions max_time times_list populations current_time
        current_state draws = Some (Inr (Absorbed, times_list, populations))"
    by (simp add: loop_exit_absorbed)
next
  assume "gillespie_simulation initial_state propensity_func reactions max_time draws =
      Some (Inr (ts, ps)) \<and> last ts < max_time"
  then obtain ex where run:
    "gillespie_loop propensity_func reactions max_time [0] [initial_state] 0 initial_state draws =
       Some (Inr (ex, ts, ps))" and early: "last ts < max_time"
    by (auto simp: simulation_returns gillespie_run_def)
  from loop_final[OF run] early have "ex = Absorbed"
    by (cases ex) simp_all
  with loop_final[OF run] show "sum_list (propensity_func (last ps)) = 0" by simp
qed

theorem absorption_stops_the_run_witness:
  "(1::real) < 10 \<and> sum_list (linear_rates [1] [0]) = 0 \<and>
   gillespie_loop (linear_rates [1]) [[- 1]] 10 [0, 1] [[1], [0]] 1 [0] [(1, 0)] =
     Some (Inr (Absorbed, [0, 1], [[1], [0]])) \<and>
   gillespie_simulation [1] (linear_rates [1]) [[- 1]] 10 [(1, 0)] = Some (Inr ([0, 1], [[1], [0]])) \<and>
   last [0, 1::real] < 10 \<and> sum_list (linear_rates [1] (last [[1], [0]])) = 0"
  using absorption_stops_the_run[where current_time = 1 and max_time = 10
      and propensity_func = "linear_rates [1]" and current_state = "[0]" and reactions = "[[- 1]]"
      and times_list = "[0, 1]" and populations = "[[1], [0]]" and draws = "[(1, 0)]"
      and initial_state = "[1]" and ts = "[0, 1]" and ps = "[[1], [0]]"]
  by (simp add: engine_eval)

subsection \<open>C3: horizon truncation\<close>

text \<open>
  Claim C3, as stated for every trajectory that ends at exactly the horizon, fails when a
  reaction lands on the horizon: the sampled waiting time takes the clock to the horizon
  without exceeding it, the reaction fires, and the loop condition then ends the run. The
  trajectory ends at the horizon and its last two states differ.
\<close>

theorem exact_landing_counterexample:
  "gillespie_simulation [1] (constant_rates [1]) [[1]] 1 [(1, 0)] = Some (Inr ([0, 1], [[1], [2]])) \<and>
   last [0, 1::real] = 1 \<and> [[1], [2]] ! 0 \<noteq> last [[1], [2::64 word]]"
  by (simp add: engine_eval)

text \<open>
  Claim C3, amended: whenever the run leaves the loop through the truncation branch (the
  sampled waiting time takes the clock strictly beyond the horizon), the trajectory ends at
  exactly the horizon, has at least two entries, and the state of its final entry is the
  state of the entry before it.
\<close>

theorem truncation_keeps_the_state:
  "gillespie_run initial_state propensity_func reactions max_time draws =
     Some (Inr (Truncated, ts, ps)) \<Longrightarrow>
   last ts = max_time \<and> 2 \<le> length ps \<and> ps ! (length ps - 2) = last ps"
  using loop_final[of propensity_func reactions max_time "[0]" "[initial_state]" 0 initial_state
      draws Truncated ts ps]
  by (simp add: gillespie_run_def)

theorem truncation_keeps_the_state_witness:
  "gillespie_run [2, 0] (linear_rates [1, 1]) [[1, 0], [0, - 1]] 1 [(1, 1 / 2), (3, 0)] =
     Some (Inr (Truncated, [0, 1 / 2, 1], [[2, 0], [3, 0], [3, 0]])) \<and>
   last [0, 1 / 2, 1::real] = 1 \<and> 2 \<le> length [[2, 0], [3, 0], [3, 0::64 word]] \<and>
   [[2, 0], [3, 0], [3, 0::64 word]] ! (length [[2, 0], [3, 0], [3, 0::64 word]] - 2) =
     last [[2, 0], [3, 0], [3, 0]]"
  using truncation_keeps_the_state[of "[2, 0]" "linear_rates [1, 1]" "[[1, 0], [0, - 1]]" 1
      "[(1, 1 / 2), (3, 0)]" "[0, 1 / 2, 1]" "[[2, 0], [3, 0], [3, 0]]"]
  by (simp add: engine_eval)

subsection \<open>C4: state changes between consecutive entries\<close>

text \<open>
  Claim C4, as stated, fails when the clamp is active: with no prey, a predation row
  \<open>[-1, 1]\<close> takes the state \<open>[0, 5]\<close> to \<open>[-1, 6]\<close>, which is recorded as
  \<open>[0, 6]\<close>; the difference \<open>[0, 1]\<close> is no row of the table.
\<close>

theorem clamping_breaks_row_difference_counterexample:
  "gillespie_run [0, 5] (constant_rates [1]) [[- 1, 1]] 2 [(1, 0), (3, 0)] =
     Some (Inr (Truncated, [0, 1, 2], [[0, 5], [0, 6], [0, 6]])) \<and>
   state_diff ([[0, 5], [0, 6], [0, 6]] ! 1) ([[0, 5], [0, 6], [0, 6]] ! 0) \<notin> set [[- 1, 1]]"
  by (simp add: engine_eval state_diff_def)

text \<open>
  Claim C4, amended: for every pair of consecutive entries other than the pair that ends
  in the truncation point, the later state is the earlier state plus one row of the table
  with every negative component of the sum raised to zero; the difference of the two states
  is exactly that row when the row has the length of the state and the sum has no negative
  component.
\<close>

theorem consecutive_states_differ_by_clamped_row:
  "gillespie_run initial_state propensity_func reactions max_time draws = Some (Inr (ex, ts, ps)) \<Longrightarrow>
   Suc i < length ps \<Longrightarrow> \<not> (ex = Truncated \<and> Suc (Suc i) = length ps) \<Longrightarrow>
   \<exists>row added. row \<in> set reactions \<and> iadd (ps ! i) row = Inr added \<and>
     ps ! Suc i = maximum added 0 \<and>
     (length row = length (ps ! i) \<and> nonneg_state added \<longrightarrow>
        state_diff (ps ! Suc i) (ps ! i) = row)"
proof -
  assume run: "gillespie_run initial_state propensity_func reactions max_time draws =
      Some (Inr (ex, ts, ps))"
    and i: "Suc i < length ps" and pair: "\<not> (ex = Truncated \<and> Suc (Suc i) = length ps)"
  from run have
    chain: "successively (fired_step reactions) (if ex = Truncated then butlast ps else ps)"
    using loop_successive[of propensity_func reactions max_time "[0]" "[initial_state]" 0
        initial_state draws ex ts ps]
    by (simp add: gillespie_run_def)
  have "fired_step reactions (ps ! i) (ps ! Suc i)"
  proof (cases "ex = Truncated")
    case True
    with pair i have "Suc i < length (butlast ps)" by simp
    with chain True have "fired_step reactions (butlast ps ! i) (butlast ps ! Suc i)"
      by (simp add: successively_conv_nth)
    with \<open>Suc i < length (butlast ps)\<close> show ?thesis by (simp add: nth_butlast)
  next
    case False
    with chain i show ?thesis by (simp add: successively_conv_nth)
  qed
  then obtain row added where step: "row \<in> set reactions" "iadd (ps ! i) row = Inr added"
      "ps ! Suc i = maximum added 0"
    using fired_stepD by blast
  then have "length row = length (ps ! i) \<and> nonneg_state added \<longrightarrow>
      state_diff (ps ! Suc i) (ps ! i) = row"
    by (simp add: unclamped_difference)
  with step show ?thesis by blast
qed

theorem consecutive_states_differ_by_clamped_row_witness:
  "gillespie_run [2, 0] (linear_rates [1, 1]) [[1, 0], [0, - 1]] 1 [(1, 1 / 2), (3, 0)] =
     Some (Inr (Truncated, [0, 1 / 2, 1], [[2, 0], [3, 0], [3, 0]])) \<and>
   Suc 0 < length [[2, 0], [3, 0], [3, 0::64 word]] \<and>
   \<not> (Truncated = Truncated \<and> Suc (Suc 0) = length [[2, 0], [3, 0], [3, 0::64 word]]) \<and>
   (\<exists>row added. row \<in> set [[1, 0], [0, - 1]] \<and>
      iadd ([[2, 0], [3, 0], [3, 0]] ! 0) row = Inr added \<and>
      [[2, 0], [3, 0], [3, 0]] ! Suc 0 = maximum added 0 \<and>
      (length row = length ([[2, 0], [3, 0], [3, 0::64 word]] ! 0) \<and> nonneg_state added \<longrightarrow>
         state_diff ([[2, 0], [3, 0], [3, 0]] ! Suc 0) ([[2, 0], [3, 0], [3, 0]] ! 0) = row))"
proof -
  have run: "gillespie_run [2, 0] (linear_rates [1, 1]) [[1, 0], [0, - 1]] 1 [(1, 1 / 2), (3, 0)] =
     Some (Inr (Truncated, [0, 1 / 2, 1], [[2, 0], [3, 0], [3, 0]]))"
    by (simp add: engine_eval)
  have pair: "Suc 0 < length [[2, 0], [3, 0], [3, 0::64 word]]" by simp
  have inner: "\<not> (Truncated = Truncated \<and> Suc (Suc 0) = length [[2, 0], [3, 0], [3, 0::64 word]])"
    by simp
  from consecutive_states_differ_by_clamped_row[OF run pair inner] run pair inner
  show ?thesis by (intro conjI)
qed

subsection \<open>C5: propensity vector and table of different lengths\<close>

text \<open>
  Claim C5, as stated, fails: the engine never compares the two lengths. With one
  propensity and a table of two rows the run returns a trajectory.
\<close>

theorem length_mismatch_goes_unnoticed_counterexample:
  "length (constant_rates [1] [0]) \<noteq> length [[1], [1::64 word]] \<and>
   gillespie_simulation [0] (constant_rates [1]) [[1], [1]] 1 [(1, 0)] =
     Some (Inr ([0, 1], [[0], [1]]))"
  by (simp add: engine_eval)

text \<open>
  Claim C5, amended: the engine raises (an index error) at the step where the sampled
  channel index is not below the number of rows of the table, which takes a propensity
  vector longer than the table; when no propensity vector is longer than the table, no run
  on well-formed draws raises an index error, so that a shorter vector goes unnoticed.
\<close>

theorem index_error_only_beyond_the_table:
  "(current_time < max_time \<and> 0 < sum_list (propensity_func current_state) \<and>
    current_time + e / sum_list (propensity_func current_state) \<le> max_time \<and>
    choice (length (propensity_func current_state))
      (map (\<lambda>x. x / sum_list (propensity_func current_state)) (propensity_func current_state)) u
      = Inr reaction_index \<and>
    length reactions \<le> reaction_index \<longrightarrow>
      gillespie_loop propensity_func reactions max_time times_list populations current_time
        current_state ((e, u) # rest) = Some (Inl IndexError)) \<and>
   (list_all well_formed_draw draws \<and>
    (\<forall>s. length (propensity_func s) \<le> length reactions) \<longrightarrow>
      gillespie_simulation initial_state propensity_func reactions max_time draws \<noteq>
        Some (Inl IndexError))"
  using loop_raises_index_error[of current_time max_time propensity_func current_state e u
      reaction_index reactions times_list populations rest]
    loop_no_index_error[of draws propensity_func reactions max_time "[0]" "[initial_state]" 0
      initial_state]
  by (auto simp: simulation_raises gillespie_run_def)

theorem index_error_only_beyond_the_table_witness:
  "(0::real) < 2 \<and> 0 < sum_list (constant_rates [1, 3] [0]) \<and>
   0 + 1 / sum_list (constant_rates [1, 3] [0]) \<le> (2::real) \<and>
   choice (length (constant_rates [1, 3] [0]))
     (map (\<lambda>x. x / sum_list (constant_rates [1, 3] [0])) (constant_rates [1, 3] [0])) (1 / 2) = Inr 1 \<and>
   length [[- 1::64 word]] \<le> 1 \<and>
   gillespie_loop (constant_rates [1, 3]) [[- 1]] 2 [0] [[0]] 0 [0] [(1, 1 / 2)] =
     Some (Inl IndexError) \<and>
   list_all well_formed_draw [(1, 0)] \<and>
   (\<forall>s. length (constant_rates [1] s) \<le> length [[1], [1::64 word]]) \<and>
   gillespie_simulation [0] (constant_rates [1]) [[1], [1]] 1 [(1, 0)] \<noteq> Some (Inl IndexError)"
proof -
  have a: "(0::real) < 2 \<and> 0 < sum_list (constant_rates [1, 3] [0]) \<and>
      0 + 1 / sum_list (constant_rates [1, 3] [0]) \<le> (2::real) \<and>
      choice (length (constant_rates [1, 3] [0]))
        (map (\<lambda>x. x / sum_list (constant_rates [1, 3] [0])) (constant_rates [1, 3] [0])) (1 / 2)
        = Inr 1 \<and>
      length [[- 1::64 word]] \<le> 1"
    by (simp add: engine_eval well_formed_draw_def)
  have b: "list_all well_formed_draw [(1, 0)] \<and>
      (\<forall>s. length (constant_rates [1] s) \<le> length [[1], [1::64 word]])"
    by (simp add: engine_eval well_formed_draw_def)
  note raised = index_error_only_beyond_the_table[where current_time = 0 and max_time = 2
      and propensity_func = "constant_rates [1, 3]" and current_state = "[0]" and e = 1
      and u = "1 / 2" and reaction_index = 1 and reactions = "[[- 1]]" and times_list = "[0]"
      and populations = "[[0]]" and rest = "[]", THEN conjunct1, rule_format, OF a]
  note silent = index_error_only_beyond_the_table[where propensity_func = "constant_rates [1]"
      and reactions = "[[1], [1]]" and draws = "[(1, 0)]" and initial_state = "[0]"
      and max_time = 1, THEN conjunct2, rule_format, OF b]
  from a b raised silent show ?thesis by (intro conjI) simp_all
qed

subsection \<open>C6: the sequence of times\<close>

text \<open>
  Claim C6, as stated for every run, fails for a negative horizon: the only recorded time
  is 0, beyond the horizon.
\<close>

theorem negative_horizon_times_counterexample:
  "gillespie_simulation [3, 4] (constant_rates [1, 1]) [[1, 0], [0, 1]] (- 2) [] =
     Some (Inr ([0], [[3, 4]])) \<and>
   \<not> times_within (- 2) [0]"
  by (simp add: engine_eval times_within_def)

text \<open>
  Claim C6, amended: for every horizon that is not negative and every tape of well-formed
  draws (the exponential variates are not negative), the times of a returned trajectory
  are non-decreasing, start at 0, and none exceeds the horizon.
\<close>

theorem times_sorted_and_within_horizon:
  "0 \<le> max_time \<Longrightarrow> list_all well_formed_draw draws \<Longrightarrow>
   gillespie_simulation initial_state propensity_func reactions max_time draws = Some (Inr (ts, ps)) \<Longrightarrow>
   sorted ts \<and> hd ts = 0 \<and> times_within max_time ts"
proof -
  assume horizon: "0 \<le> max_time" and wf: "list_all well_formed_draw draws"
    and "gillespie_simulation initial_state propensity_func reactions max_time draws =
      Some (Inr (ts, ps))"
  then obtain ex where run:
    "gillespie_loop propensity_func reactions max_time [0] [initial_state] 0 initial_state draws =
       Some (Inr (ex, ts, ps))"
    by (auto simp: simulation_returns gillespie_run_def)
  from loop_extends[OF run] obtain xs where ts: "ts = 0 # xs" by auto
  from loop_sorted[OF run wf] have sorted: "sorted ts" by simp
  from loop_final[OF run] horizon have "last ts \<le> max_time" by simp
  with sorted_le_last[OF sorted] have "\<forall>t\<in>set ts. t \<le> max_time" by fastforce
  with sorted ts show ?thesis by (simp add: times_within_def list_all_iff)
qed

theorem times_sorted_and_within_horizon_witness:
  "(0::real) \<le> 1 \<and> list_all well_formed_draw [(1, 1 / 2), (3, 0)] \<and>
   gillespie_simulation [2, 0] (linear_rates [1, 1]) [[1, 0], [0, - 1]] 1 [(1, 1 / 2), (3, 0)] =
     Some (Inr ([0, 1 / 2, 1], [[2, 0], [3, 0], [3, 0]])) \<and>
   sorted [0, 1 / 2, 1::real] \<and> hd [0, 1 / 2, 1::real] = 0 \<and> times_within 1 [0, 1 / 2, 1]"
  using times_sorted_and_within_horizon[of 1 "[(1, 1 / 2), (3, 0)]" "[2, 0]" "linear_rates [1, 1]"
      "[[1, 0], [0, - 1]]" "[0, 1 / 2, 1]" "[[2, 0], [3, 0], [3, 0]]"]
  by (simp add: engine_eval well_formed_draw_def times_within_def)

subsection \<open>C7: no negative population\<close>

text \<open>
  Claim C7: the state recorded after an update is clamped, so it has no negative
  component; and for an initial state without negative component, every state of a
  returned trajectory has all components at least zero.
\<close>

theorem recorded_states_nonnegative:
  "nonneg_state (maximum added 0) \<and>
   (nonneg_state initial_state \<and>
    gillespie_simulation initial_state propensity_func reactions max_time draws = Some (Inr (ts, ps))
      \<longrightarrow> list_all nonneg_state ps)"
proof (intro conjI impI)
  show "nonneg_state (maximum added 0)" by (rule maximum_nonneg)
next
  assume "nonneg_state initial_state \<and>
    gillespie_simulation initial_state propensity_func reactions max_time draws = Some (Inr (ts, ps))"
  then obtain ex where init: "nonneg_state initial_state" and run:
    "gillespie_loop propensity_func reactions max_time [0] [initial_state] 0 initial_state draws =
       Some (Inr (ex, ts, ps))"
    by (auto simp: simulation_returns gillespie_run_def)
  from loop_nonneg[OF run] init show "list_all nonneg_state ps" by simp
qed

theorem recorded_states_nonnegative_witness:
  "nonneg_state (maximum [- 1, 6] 0) \<and> nonneg_state [0, 5] \<and>
   gillespie_simulation [0, 5] (constant_rates [1]) [[- 1, 1]] 2 [(1, 0), (3, 0)] =
     Some (Inr ([0, 1, 2], [[0, 5], [0, 6], [0, 6]])) \<and>
   list_all nonneg_state [[0, 5], [0, 6], [0, 6]]"
  using recorded_states_nonnegative[where added = "[- 1, 6]" and initial_state = "[0, 5]"
      and propensity_func = "constant_rates [1]" and reactions = "[[- 1, 1]]" and max_time = 2
      and draws = "[(1, 0), (3, 0)]" and ts = "[0, 1, 2]" and ps = "[[0, 5], [0, 6], [0, 6]]"]
  by (simp add: engine_eval nonneg_state_def)

subsection \<open>C8: horizon at most zero\<close>

text \<open>
  Claim C8: for every horizon at most zero the loop body is never entered (the run leaves
  through the loop condition, whatever the tape) and the result is the single-point
  trajectory of time 0 and the initial state, not an error.
\<close>

theorem nonpositive_horizon_single_point:
  "max_time \<le> 0 \<Longrightarrow>
   gillespie_run initial_state propensity_func reactions max_time draws =
     Some (Inr (Condition_False, [0], [initial_state])) \<and>
   gillespie_simulation initial_state propensity_func reactions max_time draws =
     Some (Inr ([0], [initial_state]))"
  by (simp add: gillespie_simulation_def gillespie_run_def loop_exit_condition)

theorem nonpositive_horizon_single_point_witness:
  "(- 3::real) \<le> 0 \<and>
   gillespie_run [7, 2] (linear_rates [1, 1]) [[1, 0], [0, - 1]] (- 3) [(1, 0)] =
     Some (Inr (Condition_False, [0], [[7, 2]])) \<and>
   gillespie_simulation [7, 2] (linear_rates [1, 1]) [[1, 0], [0, - 1]] (- 3) [(1, 0)] =
     Some (Inr ([0], [[7, 2]]))"
  using nonpositive_horizon_single_point[of "- 3" "[7, 2]" "linear_rates [1, 1]"
      "[[1, 0], [0, - 1]]" "[(1, 0)]"]
  by simp

subsection \<open>C9: determinism under a fixed random stream\<close>

text \<open>
  Claim C9: two runs with identical initial state, propensity function, stoichiometry
  table and horizon, each on a generator seeded with the same stream, produce identical
  trajectories. The runs are calls in process states that may differ in everything but
  the contents of the initial-state array (which may be another object) and the seeded
  stream. The first run leaves the caller's array as it was, so that a second call with
  the very same array, after seeding again, in the state the first call left behind, returns
  the same result as well. The propensity evaluator is one whose rates depend on the
  contents of its argument only, as the specification requires of it.
\<close>

theorem reseeded_runs_return_the_same_trajectory:
  "reads_only_its_argument propensity_func \<Longrightarrow>
   initial_state < length (heap \<sigma>) \<Longrightarrow> initial_state' < length (heap \<sigma>') \<Longrightarrow>
   heap \<sigma> ! initial_state = heap \<sigma>' ! initial_state' \<Longrightarrow>
   gillespie_simulation_store initial_state propensity_func reactions max_time (seed stream \<sigma>) =
     Some (result, \<sigma>1) \<Longrightarrow>
   heap \<sigma>1 ! initial_state = heap \<sigma> ! initial_state \<and>
   (\<exists>\<sigma>2. gillespie_simulation_store initial_state' propensity_func reactions max_time
          (seed stream \<sigma>') = Some (result, \<sigma>2)) \<and>
   (\<exists>\<sigma>3. gillespie_simulation_store initial_state propensity_func reactions max_time
          (seed stream \<sigma>1) = Some (result, \<sigma>3))"
proof -
  assume pure: "reads_only_its_argument propensity_func"
    and valid: "initial_state < length (heap \<sigma>)" and valid': "initial_state' < length (heap \<sigma>')"
    and same: "heap \<sigma> ! initial_state = heap \<sigma>' ! initial_state'"
    and first: "gillespie_simulation_store initial_state propensity_func reactions max_time
        (seed stream \<sigma>) = Some (result, \<sigma>1)"
  have again: "\<exists>\<sigma>2. gillespie_simulation_store j propensity_func reactions max_time
        (seed stream \<tau>) = Some (result, \<sigma>2)"
    if "j < length (heap \<tau>)" "heap \<sigma> ! initial_state = heap \<tau> ! j" for j \<tau>
  proof -
    from simulation_store_rel[OF pure, of initial_state "seed stream \<sigma>" j "seed stream \<tau>"
        reactions max_time] valid that first
    have "map_option fst (gillespie_simulation_store j propensity_func reactions max_time
        (seed stream \<tau>)) = Some result"
      by (simp add: seed_def)
    then show ?thesis by auto
  qed
  from simulation_store_frame[OF first, of initial_state] valid
  have kept: "heap \<sigma>1 ! initial_state = heap \<sigma> ! initial_state" by (simp add: seed_def)
  have "initial_state < length (heap \<sigma>1)"
  proof -
    let ?h1 = "heap \<sigma> @ [heap \<sigma> ! initial_state]"
    from first obtain out hf rest where
      loop: "gillespie_loop_store propensity_func reactions max_time [0]
          [Suc (length (heap \<sigma>))] 0 (length (heap \<sigma>)) (?h1 @ [?h1 ! length (heap \<sigma>)]) stream
          = Some (out, hf, rest)" and hf: "heap \<sigma>1 = hf"
      by (auto simp: gillespie_simulation_store_def copy_array_def Let_def seed_def
            split: option.splits sum.splits prod.splits)
    from loop_store_frame[OF loop] hf valid show ?thesis by simp
  qed
  with kept again[of initial_state \<sigma>1] again[OF valid' same] show ?thesis by simp
qed

theorem reseeded_runs_return_the_same_trajectory_witness:
  "reads_only_its_argument (on_contents (linear_rates [1, 1])) \<and>
   0 < length (heap \<lparr>heap = [[2, 0]], generator = [7]\<rparr>) \<and>
   1 < length (heap \<lparr>heap = [[9], [2, 0]], generator = []\<rparr>) \<and>
   heap \<lparr>heap = [[2, 0]], generator = [7]\<rparr> ! 0 = heap \<lparr>heap = [[9], [2, 0]], generator = []\<rparr> ! 1 \<and>
   gillespie_simulation_store 0 (on_contents (linear_rates [1, 1])) [[1, 0], [0, - 1]] 1
     (seed [1, 1 / 2, 3] \<lparr>heap = [[2, 0]], generator = [7]\<rparr>) =
     Some (Inr ([0, 1 / 2, 1], [[2, 0], [3, 0], [3, 0]]),
       \<lparr>heap = [[2, 0], [3, 0], [2, 0], [3, 0], [3, 0], [3, 0]], generator = []\<rparr>) \<and>
   heap \<lparr>heap = [[2, 0], [3, 0], [2, 0], [3, 0], [3, 0], [3, 0]], generator = []\<rparr> ! 0 =
     heap \<lparr>heap = [[2, 0]], generator = [7]\<rparr> ! 0 \<and>
   (\<exists>\<sigma>2. gillespie_simulation_store 1 (on_contents (linear_rates [1, 1])) [[1, 0], [0, - 1]] 1
      (seed [1, 1 / 2, 3] \<lparr>heap = [[9], [2, 0]], generator = []\<rparr>) =
      Some (Inr ([0, 1 / 2, 1], [[2, 0], [3, 0], [3, 0]]), \<sigma>2)) \<and>
   (\<exists>\<sigma>3. gillespie_simulation_store 0 (on_contents (linear_rates [1, 1])) [[1, 0], [0, - 1]] 1
      (seed [1, 1 / 2, 3]
         \<lparr>heap = [[2, 0], [3, 0], [2, 0], [3, 0], [3, 0], [3, 0]], generator = []\<rparr>) =
      Some (Inr ([0, 1 / 2, 1], [[2, 0], [3, 0], [3, 0]]), \<sigma>3))"
proof -
  have pure: "reads_only_its_argument (on_contents (linear_rates [1, 1]))"
    by (rule on_contents_reads_only_its_argument)
  have valid: "0 < length (heap \<lparr>heap = [[2, 0]], generator = [7]\<rparr>)" by simp
  have valid': "1 < length (heap \<lparr>heap = [[9], [2, 0]], generator = []\<rparr>)" by simp
  have same: "heap \<lparr>heap = [[2, 0]], generator = [7]\<rparr> ! 0 =
      heap \<lparr>heap = [[9], [2, 0]], generator = []\<rparr> ! 1" by simp
  have first: "gillespie_simulation_store 0 (on_contents (linear_rates [1, 1])) [[1, 0], [0, - 1]] 1
     (seed [1, 1 / 2, 3] \<lparr>heap = [[2, 0]], generator = [7]\<rparr>) =
     Some (Inr ([0, 1 / 2, 1], [[2, 0], [3, 0], [3, 0]]),
       \<lparr>heap = [[2, 0], [3, 0], [2, 0], [3, 0], [3, 0], [3, 0]], generator = []\<rparr>)"
    by (simp add: store_eval)
  from reseeded_runs_return_the_same_trajectory[OF pure valid valid' same first]
    pure valid valid' same first
  show ?thesis by (intro conjI) simp_all
qed

subsection \<open>C10: no division by zero\<close>

text \<open>
  Claim C10: the divisions by the propensity sum are reached only after the test that the
  sum is zero has failed, so no loop configuration and no run, on any tape, ends in a
  division by zero.
\<close>

theorem division_by_zero_unreachable:
  "gillespie_loop propensity_func reactions max_time times_list populations current_time
     current_state draws \<noteq> Some (Inl ZeroDivisionError) \<and>
   gillespie_simulation initial_state propensity_func reactions max_time draws \<noteq>
     Some (Inl ZeroDivisionError)"
  using loop_no_zero_division[of propensity_func reactions max_time]
  by (simp add: simulation_raises gillespie_run_def)

theorem division_by_zero_unreachable_witness:
  "gillespie_loop (linear_rates [1]) [[- 1]] 10 [0, 1] [[1], [0]] 1 [0] [(1, 0)] \<noteq>
     Some (Inl ZeroDivisionError) \<and>
   gillespie_simulation [1] (linear_rates [1]) [[- 1]] 10 [(1, 0)] \<noteq> Some (Inl ZeroDivisionError)"
  using division_by_zero_unreachable[of "linear_rates [1]" "[[- 1]]" 10 "[0, 1]" "[[1], [0]]" 1
      "[0]" "[(1, 0)]" "[1]"]
  by simp

end
